theory Spec2Isabelle
  imports Main "HOL-Library.Signed_Division" "HOL-Library.Sublist"
begin

section \<open>Go values: bytes, slices, errors, panics\<close>

text \<open>
  A Go \<open>byte\<close> is an 8-bit value; it is modelled by \<^typ>\<open>char\<close>, so that
  \<open>[]byte("hello world")\<close> is the literal \<open>''hello world''\<close>.

  Go's \<open>int\<close> is modelled by \<^typ>\<open>int\<close>. Every \<open>int\<close> the package computes
  is a length, a capacity, or an offset that has already passed a bounds check against
  one, so no addition of the package can wrap around; the signed inputs (the capacities
  given to \<open>NewPool\<close>, the offset given to \<open>ReadAt\<close>) keep their negative values,
  and \<open>/\<close> and \<open>%\<close> truncate towards zero (\<open>sdiv\<close>, \<open>smod\<close>).
\<close>

type_synonym byte = char

text \<open>
  A value of type \<open>[]byte\<close> that is not \<open>nil\<close>: the address of its first
  element (\<open>SliceHeader.Data\<close>), the \<open>len\<close> bytes it shows, and the bytes of its
  backing array between \<open>len\<close> and \<open>cap\<close>. \<open>nil\<close> is \<open>None\<close> of
  \<open>slice option\<close>. Each slice carries the bytes of its own backing array: two
  slices over one array do not see each other's writes. The buffer's chunks are private
  to the buffer, and under the rule stated at \<open>Put\<close> (a slice given to the pool is
  not used again until \<open>Get\<close> returns it) the pool hands a slice to one owner at a
  time, so the package never writes through one slice and reads through another; the
  destination of a read is likewise taken to share no memory with the chunks.
\<close>

record slice =
  Data :: nat
  elems :: "byte list"
  spare :: "byte list"

definition len :: "slice \<Rightarrow> int" where
  "len s = int (length (elems s))"

definition cap :: "slice \<Rightarrow> int" where
  "cap s = int (length (elems s) + length (spare s))"

text \<open>\<open>s[0:hi]\<close>, for \<open>0 \<le> hi \<le> cap(s)\<close> (every use in the package is within
  these bounds): the same array, another length.\<close>

definition reslice :: "slice \<Rightarrow> nat \<Rightarrow> slice" where
  "reslice s hi = s\<lparr>elems := take hi (elems s @ spare s),
                     spare := drop hi (elems s @ spare s)\<rparr>"

text \<open>The builtin \<open>copy(dst, src)\<close> on the visible bytes: the new contents of
  \<open>dst\<close> and the number of bytes copied.\<close>

definition copy :: "byte list \<Rightarrow> byte list \<Rightarrow> byte list \<times> int" where
  "copy dst src =
     (let x = min (length dst) (length src) in (take x src @ drop x dst, int x))"

datatype error = errors_New string | io_EOF

datatype panic =
    ErrTooLarge
  | DivideByZero
  | IndexOutOfRange
  | SliceBoundsOutOfRange
  | MakesliceCapOutOfRange

text \<open>The allocator: the next unused address. \<open>make([]byte, 0, c)\<close> takes \<open>c\<close>
  zeroed bytes from it and panics on a negative capacity. Memory is unbounded: no
  allocation fails for want of it.\<close>

type_synonym heap = nat

definition make_bytes :: "heap \<Rightarrow> int \<Rightarrow> panic + (slice \<times> heap)" where
  "make_bytes h c =
     (if c < 0 then Inl MakesliceCapOutOfRange
      else Inr (\<lparr>Data = h, elems = [], spare = replicate (nat c) (CHR 0x00)\<rparr>, h + nat c))"

section \<open>pool.go\<close>

text \<open>The mutex serialises the methods; the model is sequential and leaves it out.
  The stack \<open>slices\<close> grows at its end, as \<open>append\<close> does.\<close>

record Pool =
  slices :: "slice list"
  bytesCap :: int
  poolCap :: int

definition NewPool :: "int \<Rightarrow> int \<Rightarrow> panic + Pool" where
  "NewPool bc pc =
     (if pc < 0 then Inl MakesliceCapOutOfRange
      else Inr \<lparr>slices = [], bytesCap = bc, poolCap = pc\<rparr>)"

definition Get :: "Pool \<Rightarrow> heap \<Rightarrow> panic + (slice \<times> Pool \<times> heap)" where
  "Get p h =
     (if length (slices p) > 0
      then Inr (last (slices p), p\<lparr>slices := butlast (slices p)\<rparr>, h)
      else (case make_bytes h (bytesCap p) of
              Inl e \<Rightarrow> Inl e
            | Inr (b, h') \<Rightarrow> Inr (b, p, h')))"

definition Put :: "Pool \<Rightarrow> slice option \<Rightarrow> error option \<times> Pool" where
  "Put p b =
     (case b of
        None \<Rightarrow> (Some (errors_New ''nil value not allowed for rebytes.Pool.Put()''), p)
      | Some b \<Rightarrow>
          if cap b \<noteq> bytesCap p
          then (Some (errors_New ''wrong capacity byte slice for rebytes.Pool.Put()''), p)
          else if int (length (slices p)) = poolCap p then (None, p)
          else (None, p\<lparr>slices := slices p @ [reslice b 0]\<rparr>))"

definition Size :: "Pool \<Rightarrow> int" where
  "Size p = int (length (slices p))"

text \<open>A caller of the pool: a sequence of \<open>Get\<close> and \<open>Put\<close> calls, stopped by the
  first panic.\<close>

datatype pool_op = OpGet | OpPut "slice option"

fun run_ops :: "pool_op list \<Rightarrow> Pool \<Rightarrow> heap \<Rightarrow> panic + (Pool \<times> heap)" where
  "run_ops [] p h = Inr (p, h)"
| "run_ops (OpGet # ops) p h =
     (case Get p h of Inl e \<Rightarrow> Inl e | Inr (b, p', h') \<Rightarrow> run_ops ops p' h')"
| "run_ops (OpPut b # ops) p h = run_ops ops (snd (Put p b)) h"

text \<open>The invariant of the idle stack.\<close>

definition pool_inv :: "Pool \<Rightarrow> bool" where
  "pool_inv p \<longleftrightarrow>
     (\<forall>s \<in> set (slices p). len s = 0 \<and> cap s = bytesCap p) \<and>
     int (length (slices p)) \<le> poolCap p"

section \<open>buffer.go\<close>

text \<open>
  \<open>Buffer.pool\<close> is a pointer to the pool. The record holds the pool's value instead:
  a method that calls \<open>Get\<close> or \<open>Put\<close> through the pointer returns the buffer with
  the pool as the call left it. A pointer \<open>&b.chunks[k]\<close> is the index \<open>k\<close>.
\<close>

record Buffer =
  pool :: Pool
  offset :: int
  chunks :: "slice list"
  chunkCap :: int

definition NewBuffer :: "Pool option \<Rightarrow> heap \<Rightarrow> panic + ((Buffer option \<times> error option) \<times> heap)" where
  "NewBuffer pl h =
     (case pl of
        None \<Rightarrow> Inr ((None, Some (errors_New ''can't pass nil to rebytes.NewBuffer()'')), h)
      | Some p \<Rightarrow>
          (case Get p h of
             Inl e \<Rightarrow> Inl e
           | Inr (s, p', h') \<Rightarrow>
               Inr ((Some \<lparr>pool = p', offset = 0, chunks = [s], chunkCap = cap s\<rparr>, None), h')))"

text \<open>\<open>offset/b.chunkCap\<close> panics on a zero divisor, the index expression on an index
  outside \<open>b.chunks\<close>.\<close>

definition findReadLocation :: "Buffer \<Rightarrow> int \<Rightarrow> panic + (nat \<times> int)" where
  "findReadLocation b off =
     (if chunkCap b = 0 then Inl DivideByZero
      else let k = off sdiv chunkCap b in
        if k < 0 \<or> int (length (chunks b)) \<le> k then Inl IndexOutOfRange
        else Inr (nat k, off smod chunkCap b))"

definition findWritableChunk :: "Buffer \<Rightarrow> heap \<Rightarrow> panic + (nat \<times> Buffer \<times> heap)" where
  "findWritableChunk b h =
     (if chunks b = [] then Inl IndexOutOfRange
      else let w = length (chunks b) - 1;
               l = len (chunks b ! w);
               c = cap (chunks b ! w)
           in if c - l = 0
              then (case Get (pool b) h of
                      Inl e \<Rightarrow> Inl e
                    | Inr (s, p', h') \<Rightarrow>
                        Inr (length (chunks b), b\<lparr>pool := p', chunks := chunks b @ [s]\<rparr>, h'))
              else Inr (w, b, h))"

definition Chunks :: "Buffer \<Rightarrow> int" where
  "Chunks b = int (length (chunks b))"

text \<open>The results of \<open>Put\<close> are dropped, as in the source.\<close>

definition Free :: "Buffer \<Rightarrow> Buffer" where
  "Free b = b\<lparr>pool := foldl (\<lambda>p s. snd (Put p (Some s))) (pool b) (chunks b), chunks := []\<rparr>"

definition String :: "Buffer \<Rightarrow> byte list" where
  "String b = concat (map elems (chunks b))"

text \<open>
  The loop of \<open>readFromOffset\<close>: \<open>p\<close> is the destination with what has been copied
  into it so far. \<open>p[n:]\<close> and \<open>( *s)[i:]\<close> panic on a bound that is negative or
  beyond the length.
\<close>

function readLoop :: "Buffer \<Rightarrow> byte list \<Rightarrow> int \<Rightarrow> int \<Rightarrow> panic + (int \<times> error option \<times> byte list)" where
  "readLoop b p off n =
     (if n < int (length p) then
        (case findReadLocation b off of
           Inl e \<Rightarrow> Inl e
         | Inr (s, i) \<Rightarrow>
             if i = len (chunks b ! s) then Inr (n, Some io_EOF, p)
             else if n < 0 \<or> i < 0 \<or> len (chunks b ! s) < i then Inl SliceBoundsOutOfRange
             else (case copy (drop (nat n) p) (drop (nat i) (elems (chunks b ! s))) of
                     (d, x) \<Rightarrow> readLoop b (take (nat n) p @ d) (off + x) (n + x)))
      else Inr (n, None, p))"
  by pat_completeness auto
termination
  by (relation "measure (\<lambda>(b, p, off, n). nat (int (length p) - n))")
     (auto simp: copy_def Let_def len_def)

definition readFromOffset :: "Buffer \<Rightarrow> byte list \<Rightarrow> int \<Rightarrow> panic + (int \<times> error option \<times> byte list)" where
  "readFromOffset b p off =
     (if length (chunks b) = 0
      then Inr (0, Some (errors_New ''can't read from buffer after Free()''), p)
      else readLoop b p off 0)"

text \<open>\<open>Read\<close> and \<open>ReadAt\<close> return the count, the error and the destination as
  written, and the buffer.\<close>

definition Read :: "Buffer \<Rightarrow> byte list \<Rightarrow> panic + ((int \<times> error option \<times> byte list) \<times> Buffer)" where
  "Read b p =
     (case readFromOffset b p (offset b) of
        Inl e \<Rightarrow> Inl e
      | Inr (n, err, p') \<Rightarrow> Inr ((n, err, p'), b\<lparr>offset := offset b + n\<rparr>))"

definition ReadAt :: "Buffer \<Rightarrow> byte list \<Rightarrow> int \<Rightarrow> panic + ((int \<times> error option \<times> byte list) \<times> Buffer)" where
  "ReadAt b p off =
     (case readFromOffset b p off of
        Inl e \<Rightarrow> Inl e
      | Inr r \<Rightarrow> Inr (r, b))"

definition min_int :: "int \<Rightarrow> int \<Rightarrow> int" where
  "min_int a b = (if a < b then a else b)"

text \<open>\<open>moveBytes\<close> returns the count, the destination slice and what is left of the
  source.\<close>

definition moveBytes :: "slice \<Rightarrow> byte list \<Rightarrow> panic + (int \<times> slice \<times> byte list)" where
  "moveBytes dst src =
     (if length src = 0 then Inr (0, dst, src)
      else let l = len dst; c = cap dst; r = c - l in
        if r = 0 then Inl ErrTooLarge
        else let r = min_int (int (length src)) r;
                 dst1 = reslice dst (nat (l + r));
                 dst2 = dst1\<lparr>elems := take (nat l) (elems dst1) @
                          fst (copy (drop (nat l) (elems dst1)) (take (nat r) src))\<rparr>
             in Inr (r, dst2, drop (nat r) src))"

lemma moveBytes_shorter:
  "moveBytes dst src = Inr (m, d, src') \<Longrightarrow> 0 < length src \<Longrightarrow> length src' < length src"
  by (auto simp: moveBytes_def Let_def min_int_def len_def cap_def split: if_splits)

function writeLoop :: "Buffer \<Rightarrow> byte list \<Rightarrow> int \<Rightarrow> heap \<Rightarrow> panic + (int \<times> Buffer \<times> heap)" where
  "writeLoop b p n h =
     (if length p > 0 then
        (case findWritableChunk b h of
           Inl e \<Rightarrow> Inl e
         | Inr (w, b1, h1) \<Rightarrow>
             (case moveBytes (chunks b1 ! w) p of
                Inl e \<Rightarrow> Inl e
              | Inr (m, d, p') \<Rightarrow>
                  writeLoop (b1\<lparr>chunks := (chunks b1)[w := d]\<rparr>) p' (n + m) h1))
      else Inr (n, b, h))"
  by pat_completeness auto
termination
  by (relation "measure (\<lambda>(b, p, n, h). length p)") (auto dest: moveBytes_shorter)

definition Write :: "Buffer \<Rightarrow> byte list \<Rightarrow> heap \<Rightarrow> panic + ((int \<times> error option) \<times> Buffer \<times> heap)" where
  "Write b p h =
     (if length (chunks b) = 0
      then Inr ((0, Some (errors_New ''can't write to buffer after Free()'')), b, h)
      else (case writeLoop b p 0 h of
              Inl e \<Rightarrow> Inl e
            | Inr (n, b', h') \<Rightarrow> Inr ((n, None), b', h')))"

definition WriteString :: "Buffer \<Rightarrow> string \<Rightarrow> heap \<Rightarrow> panic + ((int \<times> error option) \<times> Buffer \<times> heap)" where
  "WriteString b s h = Write b s h"

text \<open>
  The invariant of a buffer made by \<open>NewBuffer\<close> and written to: its pool's
  invariant, the capacity of its chunks, and that every chunk but the last is full.
\<close>

definition buffer_inv :: "Buffer \<Rightarrow> bool" where
  "buffer_inv b \<longleftrightarrow>
     pool_inv (pool b) \<and> chunkCap b = bytesCap (pool b) \<and>
     (\<forall>s \<in> set (chunks b). cap s = chunkCap b) \<and>
     (\<forall>s \<in> set (butlast (chunks b)). len s = chunkCap b)"

section \<open>Properties of the pool\<close>

lemma len_reslice_0: "len (reslice b 0) = 0"
  by (simp add: len_def reslice_def)

lemma cap_reslice: "hi \<le> length (elems b) + length (spare b) \<Longrightarrow> cap (reslice b hi) = cap b"
  by (simp add: cap_def reslice_def)

lemma Data_reslice: "Data (reslice b hi) = Data b"
  by (simp add: reslice_def)

lemma pool_inv_NewPool: "NewPool bc pc = Inr p \<Longrightarrow> pool_inv p"
  by (auto simp: NewPool_def pool_inv_def split: if_splits)

lemma pool_inv_Put: "pool_inv p \<Longrightarrow> pool_inv (snd (Put p b))"
  by (auto simp: Put_def pool_inv_def len_reslice_0 cap_reslice split: option.splits)

lemma pool_inv_Get:
  assumes "pool_inv p" and "Get p h = Inr (b, p', h')"
  shows "pool_inv p'"
proof (cases "slices p = []")
  case True
  with assms show ?thesis
    by (auto simp: Get_def split: sum.splits)
next
  case False
  with assms(2) have p': "p' = p\<lparr>slices := butlast (slices p)\<rparr>"
    by (simp add: Get_def)
  have "set (butlast (slices p)) \<subseteq> set (slices p)"
    by (auto dest: in_set_butlastD)
  with assms(1) show ?thesis
    unfolding p' pool_inv_def by auto
qed

lemma pool_inv_run_ops:
  "pool_inv p \<Longrightarrow> run_ops ops p h = Inr (p', h') \<Longrightarrow> pool_inv p'"
proof (induction ops p h rule: run_ops.induct)
  case (1 p h)
  then show ?case by simp
next
  case (2 ops p h)
  then show ?case
    by (auto split: sum.splits dest: pool_inv_Get)
next
  case (3 b ops p h)
  then show ?case
    by (simp add: pool_inv_Put)
qed

lemma bytesCap_Put: "bytesCap (snd (Put p b)) = bytesCap p"
  by (simp add: Put_def split: option.splits)

lemma poolCap_Put: "poolCap (snd (Put p b)) = poolCap p"
  by (simp add: Put_def split: option.splits)

text \<open>
  Claim C4. Starting from a pool made by \<open>NewPool\<close>, after every sequence of
  \<open>Get\<close> and \<open>Put\<close> calls each slice on the idle stack has length 0 and the pool's
  slice capacity, and the stack holds at most \<open>poolCap\<close> slices. A \<open>Put\<close> of a slice
  of the right capacity into a pool whose stack holds exactly \<open>poolCap\<close> slices
  returns no error and leaves the pool, and so its \<open>Size\<close>, as it was.
\<close>

theorem C4_pool_invariant:
  "(NewPool bc pc = Inr p0 \<longrightarrow> run_ops ops p0 h = Inr (p, h') \<longrightarrow>
      (\<forall>s \<in> set (slices p). len s = 0 \<and> cap s = bytesCap p) \<and> Size p \<le> poolCap p) \<and>
   (cap b = bytesCap q \<longrightarrow> Size q = poolCap q \<longrightarrow>
      Put q (Some b) = (None, q) \<and> Size (snd (Put q (Some b))) = Size q)"
proof -
  have "pool_inv p" if "NewPool bc pc = Inr p0" and "run_ops ops p0 h = Inr (p, h')"
    using that pool_inv_NewPool pool_inv_run_ops by blast
  then show ?thesis
    by (auto simp: pool_inv_def Size_def Put_def)
qed

text \<open>A pool of capacity 1 for slices of capacity 2, and two slices obtained from it
  and written to.\<close>

definition ex_pool :: Pool where
  "ex_pool = \<lparr>slices = [], bytesCap = 2, poolCap = 1\<rparr>"

definition ex_x :: slice where
  "ex_x = \<lparr>Data = 0, elems = ''ab'', spare = []\<rparr>"

definition ex_y :: slice where
  "ex_y = \<lparr>Data = 2, elems = ''c'', spare = [CHR 0x00]\<rparr>"

definition ex_full :: Pool where
  "ex_full = \<lparr>slices = [\<lparr>Data = 0, elems = [], spare = ''ab''\<rparr>], bytesCap = 2, poolCap = 1\<rparr>"

theorem C4_pool_invariant_witness:
  "NewPool 2 1 = Inr ex_pool \<and>
   run_ops [OpGet, OpGet, OpPut (Some ex_x), OpPut (Some ex_y), OpPut None] ex_pool 0
     = Inr (ex_full, 4) \<and>
   slices ex_full = [\<lparr>Data = 0, elems = [], spare = ''ab''\<rparr>] \<and>
   len \<lparr>Data = 0, elems = [], spare = ''ab''\<rparr> = 0 \<and>
   cap \<lparr>Data = 0, elems = [], spare = ''ab''\<rparr> = bytesCap ex_full \<and>
   Size ex_full = 1 \<and> poolCap ex_full = 1 \<and> cap ex_y = bytesCap ex_full \<and>
   Put ex_full (Some ex_y) = (None, ex_full)"
  using C4_pool_invariant [of 2 1 ex_pool
      "[OpGet, OpGet, OpPut (Some ex_x), OpPut (Some ex_y), OpPut None]" 0 ex_full 4
      ex_y ex_full]
  by (simp add: ex_pool_def ex_x_def ex_y_def ex_full_def NewPool_def Get_def Put_def
      make_bytes_def reslice_def cap_def len_def Size_def)

text \<open>
  Claim C7, as the code has it. When the idle stack does not hold exactly \<open>poolCap\<close>
  slices, \<open>Put\<close> of a slice \<open>x\<close> of the pool's capacity returns no error, and the
  \<open>Get\<close> that follows returns \<open>x[0:0]\<close>: the same address, the same backing
  bytes, the same capacity, length 0; the pool is then as it was before the \<open>Put\<close>.
\<close>

theorem C7_put_get_same_memory:
  "cap x = bytesCap p \<Longrightarrow> Size p \<noteq> poolCap p \<Longrightarrow>
   fst (Put p (Some x)) = None \<and>
   Get (snd (Put p (Some x))) h = Inr (reslice x 0, p, h) \<and>
   Data (reslice x 0) = Data x \<and> len (reslice x 0) = 0 \<and> cap (reslice x 0) = cap x \<and>
   elems (reslice x 0) @ spare (reslice x 0) = elems x @ spare x"
  by (simp add: Put_def Get_def Size_def reslice_def len_def cap_def)

theorem C7_put_get_same_memory_witness:
  "cap ex_x = bytesCap ex_pool \<and> Size ex_pool \<noteq> poolCap ex_pool \<and>
   fst (Put ex_pool (Some ex_x)) = None \<and>
   Get (snd (Put ex_pool (Some ex_x))) 4
     = Inr (\<lparr>Data = 0, elems = [], spare = ''ab''\<rparr>, ex_pool, 4)"
  using C7_put_get_same_memory [of ex_x ex_pool 4]
  by (simp add: ex_pool_def ex_x_def cap_def Size_def reslice_def)

text \<open>
  Claim C7, as the specification states it, fails on a full pool: \<open>Put\<close> drops the
  slice (at address 2), and the \<open>Get\<close> that follows pops the slice that was already
  idle (at address 0).
\<close>

theorem C7_full_pool_counterexample:
  "cap ex_y = bytesCap ex_full \<and>
   fst (Put ex_full (Some ex_y)) = None \<and>
   Get (snd (Put ex_full (Some ex_y))) 4
     = Inr (\<lparr>Data = 0, elems = [], spare = ''ab''\<rparr>,
            \<lparr>slices = [], bytesCap = 2, poolCap = 1\<rparr>, 4) \<and>
   Data \<lparr>Data = 0, elems = [], spare = ''ab''\<rparr> \<noteq> Data ex_y"
  by (simp add: ex_full_def ex_y_def cap_def Put_def Get_def)

section \<open>Properties of the buffer\<close>

declare readLoop.simps [simp del]
declare writeLoop.simps [simp del]

subsection \<open>The buffer of the tests\<close>

text \<open>\<open>NewPool(5, 100)\<close>, the buffer made from it, and that buffer after
  \<open>"hello world"\<close> or \<open>"hello"\<close> has been written to it.\<close>

definition pool5 :: Pool where
  "pool5 = \<lparr>slices = [], bytesCap = 5, poolCap = 100\<rparr>"

definition fresh_buf :: Buffer where
  "fresh_buf = \<lparr>pool = pool5, offset = 0,
     chunks = [\<lparr>Data = 0, elems = [], spare = replicate 5 (CHR 0x00)\<rparr>], chunkCap = 5\<rparr>"

definition hello_world_buf :: Buffer where
  "hello_world_buf = \<lparr>pool = pool5, offset = 0,
     chunks = [\<lparr>Data = 0, elems = ''hello'', spare = []\<rparr>,
               \<lparr>Data = 5, elems = '' worl'', spare = []\<rparr>,
               \<lparr>Data = 10, elems = ''d'', spare = replicate 4 (CHR 0x00)\<rparr>],
     chunkCap = 5\<rparr>"

definition hello_buf :: Buffer where
  "hello_buf = \<lparr>pool = pool5, offset = 0,
     chunks = [\<lparr>Data = 0, elems = ''hello'', spare = []\<rparr>], chunkCap = 5\<rparr>"

text \<open>A pool for slices of capacity 0, and the buffer made from it.\<close>

definition pool0 :: Pool where
  "pool0 = \<lparr>slices = [], bytesCap = 0, poolCap = 1\<rparr>"

definition zero_buf :: Buffer where
  "zero_buf = \<lparr>pool = pool0, offset = 0, chunks = [\<lparr>Data = 0, elems = [], spare = []\<rparr>],
     chunkCap = 0\<rparr>"

lemma NewPool_pool5: "NewPool 5 100 = Inr pool5"
  by (simp add: NewPool_def pool5_def)

lemma NewBuffer_fresh_buf: "NewBuffer (Some pool5) 0 = Inr ((Some fresh_buf, None), 5)"
  by (simp add: NewBuffer_def Get_def make_bytes_def pool5_def fresh_buf_def cap_def
      eval_nat_numeral)

lemmas run_defs =
  Write_def findWritableChunk_def moveBytes_def Get_def make_bytes_def reslice_def copy_def
  min_int_def len_def cap_def Read_def ReadAt_def readFromOffset_def findReadLocation_def
  signed_divide_int_def signed_modulo_int_def Let_def

lemma Write_hello_world:
  "Write fresh_buf ''hello world'' 5 = Inr ((11, None), hello_world_buf, 15)"
  by (simp add: fresh_buf_def hello_world_buf_def pool5_def writeLoop.simps run_defs
      eval_nat_numeral)

lemma Write_hello: "Write fresh_buf ''hello'' 5 = Inr ((5, None), hello_buf, 5)"
  by (simp add: fresh_buf_def hello_buf_def pool5_def writeLoop.simps run_defs
      eval_nat_numeral)

lemma NewBuffer_zero_buf:
  "NewPool 0 1 = Inr pool0 \<and> NewBuffer (Some pool0) 0 = Inr ((Some zero_buf, None), 0)"
  by (simp add: NewPool_def NewBuffer_def Get_def make_bytes_def pool0_def zero_buf_def cap_def)

subsection \<open>Free\<close>

lemma bytesCap_foldl_Put:
  "bytesCap (foldl (\<lambda>p s. snd (Put p (Some s))) p cs) = bytesCap p"
  by (induction cs arbitrary: p) (simp_all add: bytesCap_Put)

lemma poolCap_foldl_Put:
  "poolCap (foldl (\<lambda>p s. snd (Put p (Some s))) p cs) = poolCap p"
  by (induction cs arbitrary: p) (simp_all add: poolCap_Put)

lemma slices_foldl_Put:
  "int (length (slices p)) \<le> poolCap p \<Longrightarrow>
   slices (foldl (\<lambda>p s. snd (Put p (Some s))) p cs) =
     slices p @ take (nat (poolCap p) - length (slices p))
                  (map (\<lambda>s. reslice s 0) (filter (\<lambda>s. cap s = bytesCap p) cs))"
proof (induction cs arbitrary: p)
  case Nil
  then show ?case by simp
next
  case (Cons c cs)
  let ?p' = "snd (Put p (Some c))"
  consider (wrong) "cap c \<noteq> bytesCap p"
    | (full) "cap c = bytesCap p" "int (length (slices p)) = poolCap p"
    | (push) "cap c = bytesCap p" "int (length (slices p)) < poolCap p"
    using Cons.prems by linarith
  then show ?case
  proof cases
    case wrong
    then have "?p' = p" by (simp add: Put_def)
    with wrong Cons show ?thesis by simp
  next
    case full
    then have "?p' = p" by (simp add: Put_def)
    moreover from full have "nat (poolCap p) - length (slices p) = 0" by simp
    ultimately show ?thesis using Cons by simp
  next
    case push
    then have p': "?p' = p\<lparr>slices := slices p @ [reslice c 0]\<rparr>"
      by (simp add: Put_def)
    from push have "nat (poolCap p) - length (slices p)
        = Suc (nat (poolCap p) - Suc (length (slices p)))"
      by linarith
    moreover have "int (length (slices ?p')) \<le> poolCap ?p'"
      using push by (simp add: p')
    ultimately show ?thesis
      using Cons.IH [of ?p'] push by (simp add: p')
  qed
qed

lemma Pool_eqI:
  "slices p = slices q \<Longrightarrow> bytesCap p = bytesCap q \<Longrightarrow> poolCap p = poolCap q \<Longrightarrow>
   p = (q :: Pool)"
  by simp

text \<open>
  Claim C5. \<open>Free\<close> hands every chunk to \<open>Put\<close>, in order: the chunks of the pool's
  capacity are pushed, with length 0, on the idle stack for as long as it holds fewer
  than \<open>poolCap\<close> slices. Afterwards the buffer holds no chunk; \<open>Read\<close>, \<open>ReadAt\<close>
  and \<open>Write\<close> return their error and leave the buffer freed; and a second \<open>Free\<close>
  changes nothing, neither the buffer nor the pool.
\<close>

theorem C5_free_closes:
  "Chunks (Free b) = 0 \<and>
   pool (Free b) = foldl (\<lambda>p s. snd (Put p (Some s))) (pool b) (chunks b) \<and>
   (Size (pool b) \<le> poolCap (pool b) \<longrightarrow>
      pool (Free b) = (pool b)\<lparr>slices := slices (pool b) @
        take (nat (poolCap (pool b)) - length (slices (pool b)))
          (map (\<lambda>s. reslice s 0) (filter (\<lambda>s. cap s = bytesCap (pool b)) (chunks b)))\<rparr>) \<and>
   Read (Free b) d
     = Inr ((0, Some (errors_New ''can't read from buffer after Free()''), d), Free b) \<and>
   ReadAt (Free b) d off
     = Inr ((0, Some (errors_New ''can't read from buffer after Free()''), d), Free b) \<and>
   Write (Free b) d h
     = Inr ((0, Some (errors_New ''can't write to buffer after Free()'')), Free b, h) \<and>
   Free (Free b) = Free b \<and> Chunks (Free (Free b)) = 0"
proof -
  have "pool (Free b) = (pool b)\<lparr>slices := slices (pool b) @
        take (nat (poolCap (pool b)) - length (slices (pool b)))
          (map (\<lambda>s. reslice s 0) (filter (\<lambda>s. cap s = bytesCap (pool b)) (chunks b)))\<rparr>"
    if "Size (pool b) \<le> poolCap (pool b)"
    using that slices_foldl_Put [of "pool b" "chunks b"]
    by (intro Pool_eqI)
       (simp_all add: Free_def Size_def bytesCap_foldl_Put poolCap_foldl_Put)
  moreover have "Chunks (Free b) = 0"
    by (simp add: Chunks_def Free_def)
  moreover have "pool (Free b) = foldl (\<lambda>p s. snd (Put p (Some s))) (pool b) (chunks b)"
    by (simp add: Free_def)
  moreover have "Read (Free b) d
     = Inr ((0, Some (errors_New ''can't read from buffer after Free()''), d), Free b)"
    by (simp add: Read_def readFromOffset_def Free_def)
  moreover have "ReadAt (Free b) d off
     = Inr ((0, Some (errors_New ''can't read from buffer after Free()''), d), Free b)"
    by (simp add: ReadAt_def readFromOffset_def Free_def)
  moreover have "Write (Free b) d h
     = Inr ((0, Some (errors_New ''can't write to buffer after Free()'')), Free b, h)"
    by (simp add: Write_def Free_def)
  moreover have "Free (Free b) = Free b"
    by (simp add: Free_def)
  ultimately show ?thesis
    by simp
qed

theorem C5_free_closes_witness:
  "Size (pool hello_world_buf) \<le> poolCap (pool hello_world_buf) \<and>
   Free hello_world_buf =
     \<lparr>pool = \<lparr>slices = [\<lparr>Data = 0, elems = [], spare = ''hello''\<rparr>,
                         \<lparr>Data = 5, elems = [], spare = '' worl''\<rparr>,
                         \<lparr>Data = 10, elems = [], spare = CHR ''d'' # replicate 4 (CHR 0x00)\<rparr>],
              bytesCap = 5, poolCap = 100\<rparr>,
      offset = 0, chunks = [], chunkCap = 5\<rparr> \<and>
   Chunks (Free hello_world_buf) = 0 \<and>
   Read (Free hello_world_buf) ''xyz''
     = Inr ((0, Some (errors_New ''can't read from buffer after Free()''), ''xyz''),
            Free hello_world_buf) \<and>
   Write (Free hello_world_buf) ''xyz'' 15
     = Inr ((0, Some (errors_New ''can't write to buffer after Free()'')),
            Free hello_world_buf, 15) \<and>
   Free (Free hello_world_buf) = Free hello_world_buf"
  using C5_free_closes [of hello_world_buf "''xyz''" 0 15]
  by (simp add: Free_def hello_world_buf_def pool5_def Size_def Put_def cap_def reslice_def
      Chunks_def)

subsection \<open>Reading\<close>

lemma sdiv_nonneg: "0 \<le> k \<Longrightarrow> 0 < l \<Longrightarrow> k sdiv l = k div (l::int)"
  by (cases "k = 0") (simp_all add: signed_divide_int_def)

lemma smod_nonneg: "0 \<le> k \<Longrightarrow> 0 < l \<Longrightarrow> k smod l = k mod (l::int)"
  by (cases "k = 0") (simp_all add: signed_modulo_int_def)

lemma drop_concat_full:
  "\<forall>s \<in> set (butlast cs). length (elems s) = c \<Longrightarrow> k < length cs \<Longrightarrow>
   drop (k * c) (concat (map elems cs)) = concat (map elems (drop k cs))"
proof (induction cs arbitrary: k)
  case Nil
  then show ?case by simp
next
  case (Cons a cs)
  show ?case
  proof (cases k)
    case 0
    then show ?thesis by simp
  next
    case (Suc j)
    with Cons.prems have "cs \<noteq> []" and j: "j < length cs"
      by auto
    with Cons.prems have a: "length (elems a) = c"
      and rest: "\<forall>s \<in> set (butlast cs). length (elems s) = c"
      by auto
    from Cons.IH [OF rest j] a Suc show ?thesis
      by simp
  qed
qed

lemma length_concat_le:
  "\<forall>s \<in> set cs. length (elems s) \<le> c \<Longrightarrow> length (concat (map elems cs)) \<le> length cs * c"
  by (induction cs) (auto simp: add_le_mono)

lemma length_concat_eq:
  "\<forall>s \<in> set xs. length (elems s) = c \<Longrightarrow> length (concat (map elems xs)) = length xs * c"
  by (induction xs) auto

lemma length_concat_butlast:
  assumes "cs \<noteq> []" and "\<forall>s \<in> set (butlast cs). length (elems s) = c"
  shows "length (concat (map elems cs)) = (length cs - 1) * c + length (elems (last cs))"
proof -
  from assms(1) have "concat (map elems cs) = concat (map elems (butlast cs @ [last cs]))"
    by simp
  also have "\<dots> = concat (map elems (butlast cs)) @ elems (last cs)"
    by (simp del: append_butlast_last_id)
  finally have "length (concat (map elems cs))
      = length (concat (map elems (butlast cs))) + length (elems (last cs))"
    by simp
  moreover from assms(2) have "length (concat (map elems (butlast cs))) = length (butlast cs) * c"
    by (rule length_concat_eq)
  ultimately show ?thesis
    by simp
qed

lemma chunk_at:
  assumes le: "\<forall>s \<in> set cs. length (elems s) \<le> c"
    and full: "\<forall>s \<in> set (butlast cs). length (elems s) = c"
    and off: "off < length (concat (map elems cs))"
  shows "off div c < length cs"
    and "off mod c < length (elems (cs ! (off div c)))"
    and "drop off (concat (map elems cs))
           = drop (off mod c) (elems (cs ! (off div c))) @
             concat (map elems (drop (Suc (off div c)) cs))"
proof -
  let ?S = "concat (map elems cs)"
  let ?k = "off div c" and ?i = "off mod c"
  from le have "length ?S \<le> length cs * c"
    by (rule length_concat_le)
  with off have lt: "off < length cs * c"
    by simp
  then have c: "0 < c"
    by (cases c) auto
  from lt show k: "?k < length cs"
    by (simp add: less_mult_imp_div_less)
  have "drop off ?S = drop ?i (drop (?k * c) ?S)"
    by (simp add: ac_simps)
  also from full k have "\<dots> = drop ?i (concat (map elems (drop ?k cs)))"
    by (simp add: drop_concat_full)
  also from k have "\<dots> = drop ?i (elems (cs ! ?k) @ concat (map elems (drop (Suc ?k) cs)))"
    by (simp add: Cons_nth_drop_Suc [symmetric])
  finally have eq: "drop off ?S = drop ?i (elems (cs ! ?k) @ concat (map elems (drop (Suc ?k) cs)))" .
  show i: "?i < length (elems (cs ! ?k))"
  proof (cases "Suc ?k = length cs")
    case True
    with eq have "drop off ?S = drop ?i (elems (cs ! ?k))"
      by simp
    moreover from off have "drop off ?S \<noteq> []"
      by simp
    ultimately show ?thesis
      by auto
  next
    case False
    with k have "?k < length (butlast cs)"
      by simp
    then have "cs ! ?k \<in> set (butlast cs)"
      by (metis nth_butlast nth_mem)
    with full c show ?thesis
      by simp
  qed
  with eq show "drop off ?S = drop ?i (elems (cs ! ?k)) @ concat (map elems (drop (Suc ?k) cs))"
    by simp
qed

lemma findReadLocation_nat:
  assumes "chunkCap b = int c" and "0 < c"
  shows "findReadLocation b (int off) =
     (if off div c < length (chunks b) then Inr (off div c, int (off mod c))
      else Inl IndexOutOfRange)"
proof -
  from assms(2) have "int off sdiv int c = int (off div c)" "int off smod int c = int (off mod c)"
    by (simp_all add: sdiv_nonneg smod_nonneg zdiv_int zmod_int)
  with assms show ?thesis
    by (auto simp: findReadLocation_def Let_def)
qed

lemma readLoop_spec:
  fixes b :: Buffer and c :: nat
  defines "S \<equiv> String b"
  assumes cc: "chunkCap b = int c" and c: "0 < c" and ne: "chunks b \<noteq> []"
    and le: "\<forall>s \<in> set (chunks b). length (elems s) \<le> c"
    and full: "\<forall>s \<in> set (butlast (chunks b)). length (elems s) = c"
  shows "n \<le> length p \<Longrightarrow> off \<le> length S \<Longrightarrow>
     readLoop b p (int off) (int n) =
       (let r = min (length p - n) (length S - off);
            p' = take n p @ take r (drop off S) @ drop (n + r) p
        in if length p - n \<le> length S - off then Inr (int (n + r), None, p')
           else if length (elems (last (chunks b))) < c then Inr (int (n + r), Some io_EOF, p')
           else Inl IndexOutOfRange)"
proof (induction "length p - n" arbitrary: p off n rule: less_induct)
  case less
  let ?cs = "chunks b"
  let ?l = "length (elems (last ?cs))"
  have S: "S = concat (map elems ?cs)"
    by (simp add: S_def String_def)
  have T: "length S = (length ?cs - 1) * c + ?l"
    unfolding S using ne full by (rule length_concat_butlast)
  from ne le have l: "?l \<le> c"
    by simp
  show ?case
  proof (cases "n = length p")
    case True
    then show ?thesis
      by (subst readLoop.simps) simp
  next
    case False
    with less.prems have n: "n < length p"
      by simp
    show ?thesis
    proof (cases "off = length S")
      case True
      show ?thesis
      proof (cases "?l < c")
        case True
        with T ne have "length S div c = length ?cs - 1" "length S mod c = ?l"
          by simp_all
        with ne have "findReadLocation b (int (length S)) = Inr (length ?cs - 1, int ?l)"
          by (simp add: findReadLocation_nat [OF cc c])
        with n ne \<open>off = length S\<close> True show ?thesis
          by (subst readLoop.simps) (simp add: len_def last_conv_nth)
      next
        case False
        with l have "?l = c"
          by simp
        with T ne c have "length S = length ?cs * c"
          by (cases ?cs) simp_all
        with c have "length S div c = length ?cs"
          by simp
        then have "findReadLocation b (int (length S)) = Inl IndexOutOfRange"
          by (simp add: findReadLocation_nat [OF cc c])
        with n \<open>off = length S\<close> False show ?thesis
          by (subst readLoop.simps) simp
      qed
    next
      case False
      with less.prems have off: "off < length S"
        by simp
      define k where "k = off div c"
      define i where "i = off mod c"
      define rem where "rem = drop i (elems (?cs ! k))"
      define x where "x = min (length p - n) (length rem)"
      define p1 where "p1 = take n p @ take x (drop off S) @ drop (n + x) p"
      from chunk_at [OF le full off [unfolded S]]
      have k: "k < length ?cs" and i: "i < length (elems (?cs ! k))"
        and dr: "drop off S = rem @ concat (map elems (drop (Suc k) ?cs))"
        by (simp_all add: k_def i_def rem_def S)
      from i have rem: "0 < length rem"
        by (simp add: rem_def)
      from dr have "length rem \<le> length S - off"
        by (metis length_drop le_add1 length_append)
      with rem n have x: "0 < x" "x \<le> length p - n" "x \<le> length rem" "x \<le> length S - off"
        by (simp_all add: x_def)
      from dr x(3) have tk: "take x rem = take x (drop off S)"
        by simp
      have loc: "findReadLocation b (int off) = Inr (k, int i)"
        using k by (simp add: findReadLocation_nat [OF cc c] k_def i_def)
      have cp: "copy (drop n p) rem = (take x rem @ drop x (drop n p), int x)"
        by (simp add: copy_def Let_def x_def)
      have step: "readLoop b p (int off) (int n) = readLoop b p1 (int (off + x)) (int (n + x))"
        using n i loc cp
        by (subst readLoop.simps)
           (simp add: len_def rem_def [symmetric] p1_def tk ac_simps)
      have len1: "length p1 = length p"
        using x n by (simp add: p1_def)
      have "length p1 - (n + x) < length p - n"
        using x n by (simp add: len1)
      moreover have "n + x \<le> length p1" "off + x \<le> length S"
        using x n off by (simp_all add: len1)
      ultimately have IH: "readLoop b p1 (int (off + x)) (int (n + x)) =
         (let r = min (length p1 - (n + x)) (length S - (off + x));
              p' = take (n + x) p1 @ take r (drop (off + x) S) @ drop (n + x + r) p1
          in if length p1 - (n + x) \<le> length S - (off + x) then Inr (int (n + x + r), None, p')
             else if ?l < c then Inr (int (n + x + r), Some io_EOF, p')
             else Inl IndexOutOfRange)"
        by (rule less.hyps)
      define r' where "r' = min (length p - (n + x)) (length S - (off + x))"
      define r where "r = min (length p - n) (length S - off)"
      have r: "r = x + r'"
        using x by (simp add: r_def r'_def)
      have t1: "take (n + x) p1 = take n p @ take x (drop off S)"
        using x n by (simp add: p1_def)
      have t2: "drop (n + x + r') p1 = drop (n + x + r') p"
        using x n by (simp add: p1_def ac_simps)
      have t3: "take x (drop off S) @ take r' (drop (off + x) S) = take r (drop off S)"
        unfolding r take_add by (simp add: add.commute)
      have fin: "take (n + x) p1 @ take r' (drop (off + x) S) @ drop (n + x + r') p1
          = take n p @ take r (drop off S) @ drop (n + r) p"
      proof -
        have "take (n + x) p1 @ take r' (drop (off + x) S) @ drop (n + x + r') p1
            = (take n p @ take x (drop off S)) @ take r' (drop (off + x) S) @ drop (n + x + r') p"
          by (simp only: t1 t2)
        also have "\<dots> = take n p @ (take x (drop off S) @ take r' (drop (off + x) S)) @
            drop (n + x + r') p"
          by simp
        also have "\<dots> = take n p @ take r (drop off S) @ drop (n + r) p"
          by (simp only: t3 r add.assoc)
        finally show ?thesis .
      qed
      have br: "length p - (n + x) \<le> length S - (off + x) \<longleftrightarrow> length p - n \<le> length S - off"
        using x by auto
      show ?thesis
        unfolding step IH len1 Let_def r'_def [symmetric] r_def [symmetric] fin br
        by (simp add: r ac_simps)
    qed
  qed
qed

lemma buffer_inv_lengths:
  assumes "buffer_inv b" and "0 < chunkCap b"
  obtains c where "chunkCap b = int c" and "0 < c"
    and "\<forall>s \<in> set (chunks b). length (elems s) \<le> c"
    and "\<forall>s \<in> set (butlast (chunks b)). length (elems s) = c"
proof
  from assms(2) show "chunkCap b = int (nat (chunkCap b))" "0 < nat (chunkCap b)"
    by simp_all
  from assms show "\<forall>s \<in> set (chunks b). length (elems s) \<le> nat (chunkCap b)"
    by (auto simp: buffer_inv_def cap_def)
  from assms show "\<forall>s \<in> set (butlast (chunks b)). length (elems s) = nat (chunkCap b)"
    by (auto simp: buffer_inv_def len_def)
qed

text \<open>
  What \<open>readFromOffset\<close> does at an offset within the data, on a buffer that keeps its
  invariant with a chunk capacity above 0. When the destination is no longer than what
  is left, it is filled and no error is returned. When it is longer and the last chunk
  is not full, what is left is copied and \<open>io.EOF\<close> returned. When it is longer and the
  last chunk is full, the index expression of \<open>findReadLocation\<close> panics.
\<close>

lemma readFromOffset_spec:
  assumes "buffer_inv b" and "0 < chunkCap b" and "chunks b \<noteq> []"
    and "off \<le> length (String b)"
  shows "readFromOffset b p (int off) =
     (let r = min (length p) (length (String b) - off);
          p' = take r (drop off (String b)) @ drop r p
      in if length p \<le> length (String b) - off then Inr (int r, None, p')
         else if len (last (chunks b)) < chunkCap b then Inr (int r, Some io_EOF, p')
         else Inl IndexOutOfRange)"
proof -
  obtain c where c: "chunkCap b = int c" "0 < c"
    and le: "\<forall>s \<in> set (chunks b). length (elems s) \<le> c"
    and full: "\<forall>s \<in> set (butlast (chunks b)). length (elems s) = c"
    using buffer_inv_lengths [OF assms(1,2)] by blast
  from readLoop_spec [OF c assms(3) le full, of 0 p off] assms(3,4) c(1)
  show ?thesis
    by (simp add: readFromOffset_def len_def Let_def)
qed

text \<open>At every offset beyond the data, with a destination that is not empty, it
  panics.\<close>

lemma readFromOffset_past_end:
  assumes "buffer_inv b" and "0 < chunkCap b" and "chunks b \<noteq> []"
    and "p \<noteq> []" and "length (String b) < off"
  shows "readFromOffset b p (int off) = Inl SliceBoundsOutOfRange \<or>
         readFromOffset b p (int off) = Inl IndexOutOfRange"
proof -
  obtain c where c: "chunkCap b = int c" "0 < c"
    and le: "\<forall>s \<in> set (chunks b). length (elems s) \<le> c"
    and full: "\<forall>s \<in> set (butlast (chunks b)). length (elems s) = c"
    using buffer_inv_lengths [OF assms(1,2)] by blast
  let ?cs = "chunks b"
  let ?l = "length (elems (last ?cs))"
  have T: "length (String b) = (length ?cs - 1) * c + ?l"
    unfolding String_def using assms(3) full by (rule length_concat_butlast)
  show ?thesis
  proof (cases "off div c < length ?cs")
    case False
    then have "findReadLocation b (int off) = Inl IndexOutOfRange"
      by (simp add: findReadLocation_nat [OF c])
    with assms(3,4) show ?thesis
      by (simp add: readFromOffset_def) (subst readLoop.simps, simp)
  next
    case True
    from T assms(5) have "(length ?cs - 1) * c \<le> off"
      by simp
    with c(2) have "length ?cs - 1 \<le> off div c"
      by (simp add: less_eq_div_iff_mult_less_eq)
    with True have k: "off div c = length ?cs - 1"
      by simp
    then have "off = (length ?cs - 1) * c + off mod c"
      by (metis div_mult_mod_eq)
    with T assms(5) have i: "?l < off mod c"
      by simp
    from True have "findReadLocation b (int off) = Inr (off div c, int (off mod c))"
      by (simp add: findReadLocation_nat [OF c])
    with assms(3,4) i k show ?thesis
      by (simp add: readFromOffset_def) (subst readLoop.simps, simp add: len_def last_conv_nth)
  qed
qed

text \<open>
  Claim C1, at three offsets of the buffer that holds the 11 bytes of
  \<open>"hello world"\<close> in chunks of capacity 5, and on the buffer of chunk capacity 0.
  The chunk and the place in it are \<open>off / chunkCap\<close> and \<open>off % chunkCap\<close>.
  At offset 11, the end of the data, \<open>ReadAt\<close> returns 0 and \<open>io.EOF\<close>. At
  offset 12, past the last written byte but inside the last chunk's capacity,
  \<open>( *s)[i:]\<close> panics; at offset 15, the index \<open>off / chunkCap\<close> is outside
  \<open>b.chunks\<close> and the index expression panics (\<open>readFromOffset_past_end\<close>: so
  it is at every offset beyond the data). With a chunk capacity of 0 the division
  panics.
\<close>

theorem C1_readAt_past_end:
  "ReadAt hello_world_buf ''x'' 11 = Inr ((0, Some io_EOF, ''x''), hello_world_buf) \<and>
   findReadLocation hello_world_buf 12 = Inr (2, 2) \<and>
   ReadAt hello_world_buf ''x'' 12 = Inl SliceBoundsOutOfRange \<and>
   findReadLocation hello_world_buf 15 = Inl IndexOutOfRange \<and>
   ReadAt hello_world_buf ''x'' 15 = Inl IndexOutOfRange \<and>
   ReadAt zero_buf ''x'' 0 = Inl DivideByZero"
  by (simp add: hello_world_buf_def zero_buf_def pool5_def pool0_def readLoop.simps run_defs)

text \<open>
  Claim C2, on the buffer that holds the 5 bytes of \<open>"hello"\<close> in one full chunk of
  capacity 5. A \<open>Read\<close> into 5 bytes returns them. A \<open>Read\<close> into 6 bytes copies
  the 5 bytes, then looks for the chunk of offset 5, index 1 of a list of one chunk, and
  the index expression panics: no count and no \<open>io.EOF\<close> are returned
  (\<open>readFromOffset_spec\<close>: so it is whenever the last chunk is full and the
  destination is longer than what is left). On the buffer of chunk capacity 0 a
  \<open>Read\<close> into a destination that is not empty panics in the division.
\<close>

theorem C2_read_full_last_chunk:
  "Read hello_buf ''xxxxx'' = Inr ((5, None, ''hello''), hello_buf\<lparr>offset := 5\<rparr>) \<and>
   Read hello_buf ''xxxxxx'' = Inl IndexOutOfRange \<and>
   Read (hello_buf\<lparr>offset := 5\<rparr>) ''x'' = Inl IndexOutOfRange \<and>
   Read zero_buf ''x'' = Inl DivideByZero"
  by (simp add: hello_buf_def zero_buf_def pool5_def pool0_def readLoop.simps run_defs)

lemma readLoop_error:
  "readLoop b p off n = Inr (m, Some e, p') \<Longrightarrow> e = io_EOF"
proof (induction b p off n rule: readLoop.induct)
  case (1 b p off n)
  from "1.prems" show ?case
    by (subst (asm) readLoop.simps)
       (auto split: if_splits sum.splits prod.splits dest: "1.IH")
qed

lemma readFromOffset_error:
  "readFromOffset b d k = Inr (n, Some e, d') \<Longrightarrow> e \<noteq> io_EOF \<Longrightarrow>
   n = 0 \<and> d' = d \<and> chunks b = []"
  by (auto simp: readFromOffset_def split: if_splits dest: readLoop_error)

text \<open>
  Claim C10. On a buffer with no chunks, \<open>Read\<close> and \<open>ReadAt\<close> into a destination
  of length 0 return 0 and the error of a freed buffer: the test of \<open>len(b.chunks)\<close>
  comes before the loop that a destination of length 0 skips.
\<close>

theorem C10_closed_before_empty_destination:
  "chunks b = [] \<Longrightarrow>
   Read b [] = Inr ((0, Some (errors_New ''can't read from buffer after Free()''), []), b) \<and>
   ReadAt b [] off
     = Inr ((0, Some (errors_New ''can't read from buffer after Free()''), []), b)"
  by (simp add: Read_def ReadAt_def readFromOffset_def)

theorem C10_closed_before_empty_destination_witness:
  "chunks (Free hello_world_buf) = [] \<and>
   Read (Free hello_world_buf) []
     = Inr ((0, Some (errors_New ''can't read from buffer after Free()''), []),
            Free hello_world_buf) \<and>
   ReadAt (Free hello_world_buf) [] 3
     = Inr ((0, Some (errors_New ''can't read from buffer after Free()''), []),
            Free hello_world_buf)"
  using C10_closed_before_empty_destination [of "Free hello_world_buf" 3]
  by (simp add: Free_def)

text \<open>
  Claim C6. \<open>Put\<close> of \<open>nil\<close> or of a slice of another capacity returns its error
  and the pool as it was; \<open>NewBuffer\<close> of \<open>nil\<close> returns its error, no buffer, and
  allocates nothing; \<open>Read\<close>, \<open>ReadAt\<close> and \<open>Write\<close> on a buffer with no chunks
  return count 0 and their error, and leave the buffer, its pool, the destination and the
  allocator as they were. These are the only errors but \<open>io.EOF\<close>: whenever \<open>Put\<close>,
  \<open>NewBuffer\<close>, \<open>Write\<close>, \<open>Read\<close> or \<open>ReadAt\<close> returns an error other than
  \<open>io.EOF\<close>, the state after the call is the state before it.
\<close>

theorem C6_errors_leave_state:
  "Put p None = (Some (errors_New ''nil value not allowed for rebytes.Pool.Put()''), p) \<and>
   (cap x \<noteq> bytesCap p \<longrightarrow>
      Put p (Some x)
        = (Some (errors_New ''wrong capacity byte slice for rebytes.Pool.Put()''), p)) \<and>
   NewBuffer None h
     = Inr ((None, Some (errors_New ''can't pass nil to rebytes.NewBuffer()'')), h) \<and>
   (chunks b = [] \<longrightarrow>
      Read b d
        = Inr ((0, Some (errors_New ''can't read from buffer after Free()''), d), b) \<and>
      ReadAt b d off
        = Inr ((0, Some (errors_New ''can't read from buffer after Free()''), d), b) \<and>
      Write b d h
        = Inr ((0, Some (errors_New ''can't write to buffer after Free()'')), b, h)) \<and>
   (Put p y = (Some e, p') \<longrightarrow> p' = p) \<and>
   (NewBuffer pl h = Inr ((bo, Some e), h') \<longrightarrow> bo = None \<and> h' = h) \<and>
   (Write b d h = Inr ((n, Some e), b', h') \<longrightarrow> n = 0 \<and> b' = b \<and> h' = h) \<and>
   (Read b d = Inr ((n, Some e, d'), b') \<longrightarrow> e \<noteq> io_EOF \<longrightarrow> n = 0 \<and> b' = b \<and> d' = d) \<and>
   (ReadAt b d off = Inr ((n, Some e, d'), b') \<longrightarrow> e \<noteq> io_EOF \<longrightarrow>
      n = 0 \<and> b' = b \<and> d' = d)"
proof -
  have put: "p' = p" if "Put p y = (Some e, p')"
    using that by (auto simp: Put_def split: option.splits if_splits)
  have new: "bo = None \<and> h' = h" if "NewBuffer pl h = Inr ((bo, Some e), h')"
    using that by (auto simp: NewBuffer_def split: option.splits sum.splits)
  have wr: "n = 0 \<and> b' = b \<and> h' = h" if "Write b d h = Inr ((n, Some e), b', h')"
    using that by (auto simp: Write_def split: if_splits sum.splits)
  have rd: "n = 0 \<and> b' = b \<and> d' = d"
    if "Read b d = Inr ((n, Some e, d'), b')" and "e \<noteq> io_EOF"
    using that readFromOffset_error [of b d "offset b" n e d']
    by (auto simp: Read_def split: sum.splits)
  have rda: "n = 0 \<and> b' = b \<and> d' = d"
    if "ReadAt b d off = Inr ((n, Some e, d'), b')" and "e \<noteq> io_EOF"
    using that readFromOffset_error [of b d off n e d']
    by (auto simp: ReadAt_def split: sum.splits)
  have closed: "Read b d
        = Inr ((0, Some (errors_New ''can't read from buffer after Free()''), d), b) \<and>
      ReadAt b d off
        = Inr ((0, Some (errors_New ''can't read from buffer after Free()''), d), b) \<and>
      Write b d h
        = Inr ((0, Some (errors_New ''can't write to buffer after Free()'')), b, h)"
    if "chunks b = []"
    using that by (simp add: Read_def ReadAt_def Write_def readFromOffset_def)
  have args: "Put p None = (Some (errors_New ''nil value not allowed for rebytes.Pool.Put()''), p) \<and>
   (cap x \<noteq> bytesCap p \<longrightarrow>
      Put p (Some x)
        = (Some (errors_New ''wrong capacity byte slice for rebytes.Pool.Put()''), p)) \<and>
   NewBuffer None h
     = Inr ((None, Some (errors_New ''can't pass nil to rebytes.NewBuffer()'')), h)"
    by (simp add: Put_def NewBuffer_def)
  from args closed put new wr rd rda show ?thesis
    by blast
qed

theorem C6_errors_leave_state_witness:
  "cap ex_x \<noteq> bytesCap pool5 \<and>
   Put pool5 (Some ex_x)
     = (Some (errors_New ''wrong capacity byte slice for rebytes.Pool.Put()''), pool5) \<and>
   Put pool5 None
     = (Some (errors_New ''nil value not allowed for rebytes.Pool.Put()''), pool5) \<and>
   NewBuffer None 15
     = Inr ((None, Some (errors_New ''can't pass nil to rebytes.NewBuffer()'')), 15) \<and>
   chunks (Free hello_world_buf) = [] \<and>
   Read (Free hello_world_buf) ''xyz''
     = Inr ((0, Some (errors_New ''can't read from buffer after Free()''), ''xyz''),
            Free hello_world_buf) \<and>
   ReadAt (Free hello_world_buf) ''xyz'' 6
     = Inr ((0, Some (errors_New ''can't read from buffer after Free()''), ''xyz''),
            Free hello_world_buf) \<and>
   Write (Free hello_world_buf) ''xyz'' 15
     = Inr ((0, Some (errors_New ''can't write to buffer after Free()'')),
            Free hello_world_buf, 15)"
  using C6_errors_leave_state [where p = pool5 and x = ex_x and h = 15
      and b = "Free hello_world_buf" and d = "''xyz''" and off = 6 and y = None
      and e = "errors_New ''nil value not allowed for rebytes.Pool.Put()''" and p' = pool5
      and pl = None and bo = None and h' = 15 and n = 0 and b' = "Free hello_world_buf"
      and d' = "''xyz''"]
  by (simp add: Free_def ex_x_def pool5_def cap_def)

text \<open>
  Claim C8. A \<open>ReadAt\<close> that returns leaves the buffer as it was: pool, offset, chunks
  and chunk capacity. A \<open>Read\<close> that returns adds the count to the offset and changes
  nothing else: the chunks, their bytes, the chunk capacity and the pool are as before.
  So a \<open>Read\<close> after a \<open>ReadAt\<close> is the \<open>Read\<close> without it.
\<close>

theorem C8_reads_frame:
  "(ReadAt b d off = Inr (r, b') \<longrightarrow> b' = b \<and> Read b' d2 = Read b d2) \<and>
   (Read b d = Inr ((n, e, d'), b'') \<longrightarrow>
      b'' = b\<lparr>offset := offset b + n\<rparr> \<and> chunks b'' = chunks b \<and>
      String b'' = String b \<and> chunkCap b'' = chunkCap b \<and> pool b'' = pool b)"
  by (auto simp: ReadAt_def Read_def String_def split: sum.splits)

theorem C8_reads_frame_witness:
  "ReadAt hello_world_buf ''xxx'' 0 = Inr ((3, None, ''hel''), hello_world_buf) \<and>
   Read hello_world_buf ''xxx''
     = Inr ((3, None, ''hel''), hello_world_buf\<lparr>offset := 3\<rparr>) \<and>
   chunks (hello_world_buf\<lparr>offset := 3\<rparr>) = chunks hello_world_buf \<and>
   String (hello_world_buf\<lparr>offset := 3\<rparr>) = ''hello world''"
  using C8_reads_frame [of hello_world_buf "''xxx''" 0 "(3, None, ''hel'')" hello_world_buf
      "''xxx''" 3 None "''hel''" "hello_world_buf\<lparr>offset := 3\<rparr>"]
  by (simp add: hello_world_buf_def pool5_def readLoop.simps run_defs String_def)

subsection \<open>Writing\<close>

lemma Get_Inr:
  assumes "pool_inv p" and "0 \<le> bytesCap p"
  obtains s p' h' where "Get p h = Inr (s, p', h')" and "len s = 0" and "cap s = bytesCap p"
    and "pool_inv p'" and "bytesCap p' = bytesCap p" and "poolCap p' = poolCap p"
    and "prefix (slices p') (slices p)"
proof (cases "slices p = []")
  case True
  let ?s = "\<lparr>Data = h, elems = [], spare = replicate (nat (bytesCap p)) (CHR 0x00)\<rparr>"
  from True assms(2) have "Get p h = Inr (?s, p, h + nat (bytesCap p))"
    by (simp add: Get_def make_bytes_def)
  moreover from assms(2) have "len ?s = 0" "cap ?s = bytesCap p"
    by (simp_all add: len_def cap_def)
  ultimately show ?thesis
    using assms(1) that by blast
next
  case False
  let ?p' = "p\<lparr>slices := butlast (slices p)\<rparr>"
  from False have get: "Get p h = Inr (last (slices p), ?p', h)"
    by (simp add: Get_def)
  from False have "last (slices p) \<in> set (slices p)"
    by simp
  with assms(1) have "len (last (slices p)) = 0" "cap (last (slices p)) = bytesCap p"
    by (simp_all add: pool_inv_def)
  moreover from assms(1) get have "pool_inv ?p'"
    by (rule pool_inv_Get)
  ultimately show ?thesis
    using get that by (simp add: prefixeq_butlast)
qed

lemma moveBytes_Inr:
  assumes "src \<noteq> []" and "len dst < cap dst"
  defines "m \<equiv> min (length src) (length (spare dst))"
  shows "moveBytes dst src
           = Inr (int m, dst\<lparr>elems := elems dst @ take m src, spare := drop m (spare dst)\<rparr>,
                  drop m src)"
proof -
  from assms(2) have sp: "0 < length (spare dst)"
    by (simp add: len_def cap_def)
  have r: "min_int (int (length src)) (cap dst - len dst) = int m"
    by (simp add: min_int_def m_def len_def cap_def min_def)
  have n: "nat (len dst + int m) = length (elems dst) + m" "nat (len dst) = length (elems dst)"
    by (simp_all add: len_def nat_add_distrib)
  have m: "m \<le> length src" "m \<le> length (spare dst)"
    by (simp_all add: m_def)
  then have c: "fst (copy (take m (spare dst)) (take m src)) = take m src"
    by (simp add: copy_def Let_def min_def)
  from assms(1) sp show ?thesis
    unfolding moveBytes_def Let_def r n
    by (simp add: len_def cap_def reslice_def c m)
qed

lemma moveBytes_ErrTooLarge:
  "src \<noteq> [] \<Longrightarrow> len dst = cap dst \<Longrightarrow> moveBytes dst src = Inl ErrTooLarge"
  by (simp add: moveBytes_def Let_def)

lemma len_le_cap: "len s \<le> cap s"
  by (simp add: len_def cap_def)

lemma findWritableChunk_Inr:
  assumes "pool_inv (pool b)" and "0 < bytesCap (pool b)" and "chunks b \<noteq> []"
  obtains w b1 h1 where "findWritableChunk b h = Inr (w, b1, h1)"
    and "Suc w = length (chunks b1)"
    and "len (chunks b1 ! w) < cap (chunks b1 ! w)"
    and "pool_inv (pool b1)" and "bytesCap (pool b1) = bytesCap (pool b)"
    and "poolCap (pool b1) = poolCap (pool b)"
    and "offset b1 = offset b" and "chunkCap b1 = chunkCap b"
    and "chunks b1 = chunks b \<or>
         (\<exists>s. chunks b1 = chunks b @ [s] \<and> len s = 0 \<and> cap s = bytesCap (pool b) \<and>
              len (last (chunks b)) = cap (last (chunks b)))"
    and "prefix (slices (pool b1)) (slices (pool b))"
proof (cases "cap (last (chunks b)) - len (last (chunks b)) = 0")
  case True
  from assms(2) have nn: "0 \<le> bytesCap (pool b)"
    by simp
  obtain s p' h' where get: "Get (pool b) h = Inr (s, p', h')"
    and s: "len s = 0" "cap s = bytesCap (pool b)"
    and p': "pool_inv p'" "bytesCap p' = bytesCap (pool b)" "poolCap p' = poolCap (pool b)"
      "prefix (slices p') (slices (pool b))"
    using Get_Inr [OF assms(1) nn, of h] by blast
  let ?b1 = "b\<lparr>pool := p', chunks := chunks b @ [s]\<rparr>"
  from True assms(3) get
  have "findWritableChunk b h = Inr (length (chunks b), ?b1, h')"
    by (simp add: findWritableChunk_def Let_def last_conv_nth)
  moreover from s assms(2) have "len (chunks ?b1 ! length (chunks b)) < cap (chunks ?b1 ! length (chunks b))"
    by simp
  moreover from True have "len (last (chunks b)) = cap (last (chunks b))"
    by simp
  ultimately show ?thesis
    using that [of "length (chunks b)" ?b1 h'] s p' by simp
next
  case False
  with assms(3) have "findWritableChunk b h = Inr (length (chunks b) - 1, b, h)"
    by (simp add: findWritableChunk_def Let_def last_conv_nth)
  moreover from False len_le_cap [of "last (chunks b)"] assms(3)
  have "len (chunks b ! (length (chunks b) - 1)) < cap (chunks b ! (length (chunks b) - 1))"
    by (simp add: last_conv_nth)
  ultimately show ?thesis
    using that [of "length (chunks b) - 1" b h] assms by simp
qed

lemma update_last: "Suc w = length cs \<Longrightarrow> cs[w := d] = butlast cs @ [d]"
  by (induction cs arbitrary: w) (auto split: nat.splits)

lemma nth_last: "Suc w = length cs \<Longrightarrow> cs ! w = last cs"
  by (cases cs rule: rev_cases) simp_all

lemma String_update_last:
  assumes "Suc w = length (chunks b)"
    and "elems d = elems (chunks b ! w) @ xs"
  shows "String (b\<lparr>chunks := (chunks b)[w := d]\<rparr>) = String b @ xs"
proof -
  from assms(1) have "chunks b \<noteq> []"
    by auto
  then have "String b = concat (map elems (butlast (chunks b) @ [last (chunks b)]))"
    by (simp add: String_def)
  also have "\<dots> = concat (map elems (butlast (chunks b))) @ elems (last (chunks b))"
    by (simp del: append_butlast_last_id)
  finally have "String b = concat (map elems (butlast (chunks b))) @ elems (last (chunks b))" .
  with assms show ?thesis
    by (simp add: String_def update_last nth_last)
qed

lemma write_step:
  assumes "pool_inv (pool b)" and "0 < bytesCap (pool b)" and "chunks b \<noteq> []" and "p \<noteq> []"
  obtains w b1 h1 m d where "findWritableChunk b h = Inr (w, b1, h1)"
    and "moveBytes (chunks b1 ! w) p = Inr (int m, d, drop m p)"
    and "0 < m" and "m \<le> length p"
    and "String (b1\<lparr>chunks := (chunks b1)[w := d]\<rparr>) = String b @ take m p"
    and "pool_inv (pool b1)" and "bytesCap (pool b1) = bytesCap (pool b)"
    and "poolCap (pool b1) = poolCap (pool b)"
    and "offset b1 = offset b" and "chunkCap b1 = chunkCap b"
    and "Suc w = length (chunks b1)"
    and "chunks b1 = chunks b \<or>
         (\<exists>s. chunks b1 = chunks b @ [s] \<and> len s = 0 \<and> cap s = bytesCap (pool b) \<and>
              len (last (chunks b)) = cap (last (chunks b)))"
    and "cap d = cap (chunks b1 ! w)" and "0 < len d"
    and "prefix (slices (pool b1)) (slices (pool b))"
proof -
  obtain w b1 h1 where fw: "findWritableChunk b h = Inr (w, b1, h1)"
    and w: "Suc w = length (chunks b1)"
    and room: "len (chunks b1 ! w) < cap (chunks b1 ! w)"
    and rest: "pool_inv (pool b1)" "bytesCap (pool b1) = bytesCap (pool b)"
      "poolCap (pool b1) = poolCap (pool b)" "offset b1 = offset b" "chunkCap b1 = chunkCap b"
      "chunks b1 = chunks b \<or>
         (\<exists>s. chunks b1 = chunks b @ [s] \<and> len s = 0 \<and> cap s = bytesCap (pool b) \<and>
              len (last (chunks b)) = cap (last (chunks b)))"
      "prefix (slices (pool b1)) (slices (pool b))"
    using findWritableChunk_Inr [OF assms(1-3), of h] by blast
  define dst where "dst = chunks b1 ! w"
  define m where "m = min (length p) (length (spare dst))"
  define d where "d = dst\<lparr>elems := elems dst @ take m p, spare := drop m (spare dst)\<rparr>"
  from room have sp: "0 < length (spare dst)"
    by (simp add: dst_def len_def cap_def)
  have mv: "moveBytes (chunks b1 ! w) p = Inr (int m, d, drop m p)"
    using moveBytes_Inr [OF assms(4), of dst] room
    by (simp add: dst_def m_def d_def)
  have m: "0 < m" "m \<le> length p"
    using sp assms(4) by (simp_all add: m_def)
  have "elems d = elems (chunks b1 ! w) @ take m p"
    by (simp add: d_def dst_def)
  with w have str: "String (b1\<lparr>chunks := (chunks b1)[w := d]\<rparr>) = String b1 @ take m p"
    by (rule String_update_last)
  from rest(6) have "String b1 = String b"
    by (auto simp: String_def len_def)
  with str have str': "String (b1\<lparr>chunks := (chunks b1)[w := d]\<rparr>) = String b @ take m p"
    by simp
  have "cap d = cap (chunks b1 ! w)"
    by (simp add: d_def cap_def dst_def m_def)
  moreover from m have "0 < len d"
    by (simp add: d_def len_def)
  ultimately show ?thesis
    using that [OF fw mv m str' rest(1-5) w rest(6)] rest(7) by simp
qed

lemma buffer_inv_step:
  assumes inv: "buffer_inv b" and ne: "chunks b \<noteq> []"
    and b1: "pool_inv (pool b1)" "bytesCap (pool b1) = bytesCap (pool b)"
      "chunkCap b1 = chunkCap b" "Suc w = length (chunks b1)"
    and cs: "chunks b1 = chunks b \<or>
         (\<exists>s. chunks b1 = chunks b @ [s] \<and> len s = 0 \<and> cap s = bytesCap (pool b) \<and>
              len (last (chunks b)) = cap (last (chunks b)))"
    and d: "cap d = cap (chunks b1 ! w)"
  shows "buffer_inv (b1\<lparr>chunks := (chunks b1)[w := d]\<rparr>)"
proof -
  from ne have split: "set (chunks b) = insert (last (chunks b)) (set (butlast (chunks b)))"
    by (metis append_butlast_last_id list.simps(15) rotate1.simps(2) set_rotate1)
  from inv have caps: "\<forall>s \<in> set (chunks b). cap s = chunkCap b"
    and full: "\<forall>s \<in> set (butlast (chunks b)). len s = chunkCap b"
    and cc: "chunkCap b = bytesCap (pool b)"
    by (simp_all add: buffer_inv_def)
  from cs caps cc have caps1: "\<forall>s \<in> set (chunks b1). cap s = chunkCap b"
    by auto
  from b1(4) have "last (chunks b1) \<in> set (chunks b1)"
    by (metis last_in_set length_0_conv nat.distinct(1))
  with caps1 d b1(4) have capd: "cap d = chunkCap b"
    by (simp add: nth_last)
  from cs split caps full ne have full1: "\<forall>s \<in> set (butlast (chunks b1)). len s = chunkCap b"
    by auto
  from caps1 have "\<forall>s \<in> set (butlast (chunks b1)). cap s = chunkCap b"
    by (auto dest: in_set_butlastD)
  with capd full1 b1 cc show ?thesis
    by (auto simp: buffer_inv_def update_last)
qed

lemma writeLoop_Inr:
  "pool_inv (pool b) \<Longrightarrow> 0 < bytesCap (pool b) \<Longrightarrow> chunks b \<noteq> [] \<Longrightarrow>
   \<exists>b' h'. writeLoop b p n h = Inr (n + int (length p), b', h') \<and>
      String b' = String b @ p \<and>
      pool_inv (pool b') \<and> bytesCap (pool b') = bytesCap (pool b) \<and>
      poolCap (pool b') = poolCap (pool b) \<and>
      offset b' = offset b \<and> chunkCap b' = chunkCap b \<and>
      prefix (butlast (chunks b)) (chunks b') \<and> length (chunks b) \<le> length (chunks b') \<and>
      prefix (slices (pool b')) (slices (pool b)) \<and>
      (p \<noteq> [] \<or> 0 < len (last (chunks b)) \<longrightarrow> 0 < len (last (chunks b'))) \<and>
      (buffer_inv b \<longrightarrow> buffer_inv b')"
proof (induction b p n h rule: writeLoop.induct)
  case (1 b p n h)
  show ?case
  proof (cases "p = []")
    case True
    then have "writeLoop b p n h = Inr (n, b, h)"
      by (simp add: writeLoop.simps)
    with True "1.prems" show ?thesis
      by (simp add: prefixeq_butlast)
  next
    case False
    obtain w b1 h1 m d where fw: "findWritableChunk b h = Inr (w, b1, h1)"
      and mv: "moveBytes (chunks b1 ! w) p = Inr (int m, d, drop m p)"
      and m: "0 < m" "m \<le> length p"
      and str: "String (b1\<lparr>chunks := (chunks b1)[w := d]\<rparr>) = String b @ take m p"
      and b1: "pool_inv (pool b1)" "bytesCap (pool b1) = bytesCap (pool b)"
        "poolCap (pool b1) = poolCap (pool b)" "offset b1 = offset b" "chunkCap b1 = chunkCap b"
      and w: "Suc w = length (chunks b1)"
      and cs: "chunks b1 = chunks b \<or>
         (\<exists>s. chunks b1 = chunks b @ [s] \<and> len s = 0 \<and> cap s = bytesCap (pool b) \<and>
              len (last (chunks b)) = cap (last (chunks b)))"
      and d: "cap d = cap (chunks b1 ! w)" "0 < len d"
      and sl: "prefix (slices (pool b1)) (slices (pool b))"
      using write_step [OF "1.prems" False, of h] by blast
    define b2 where "b2 = b1\<lparr>chunks := (chunks b1)[w := d]\<rparr>"
    have cs2: "chunks b2 = butlast (chunks b1) @ [d]"
      using w by (simp add: b2_def update_last)
    have pre2: "pool_inv (pool b2)" "0 < bytesCap (pool b2)" "chunks b2 \<noteq> []"
      using b1 "1.prems" cs2 by (simp_all add: b2_def)
    from False have "0 < length p"
      by simp
    from "1.IH" [OF this fw refl refl mv refl refl, folded b2_def, OF pre2]
    obtain b' h' where run: "writeLoop b2 (drop m p) (n + int m) h1
          = Inr (n + int m + int (length (drop m p)), b', h')"
      and str': "String b' = String b2 @ drop m p"
      and pl: "pool_inv (pool b')" "bytesCap (pool b') = bytesCap (pool b2)"
        "poolCap (pool b') = poolCap (pool b2)"
      and fr: "offset b' = offset b2" "chunkCap b' = chunkCap b2"
      and gr: "prefix (butlast (chunks b2)) (chunks b')" "length (chunks b2) \<le> length (chunks b')"
      and sl': "prefix (slices (pool b')) (slices (pool b2))"
      and ne: "drop m p \<noteq> [] \<or> 0 < len (last (chunks b2)) \<longrightarrow> 0 < len (last (chunks b'))"
      and inv: "buffer_inv b2 \<longrightarrow> buffer_inv b'"
      by blast
    from False fw mv have unfold: "writeLoop b p n h = writeLoop b2 (drop m p) (n + int m) h1"
      by (subst writeLoop.simps) (simp add: b2_def)
    from m have "n + int m + int (length (drop m p)) = n + int (length p)"
      by simp
    with unfold run have res: "writeLoop b p n h = Inr (n + int (length p), b', h')"
      by simp
    from str str' have s: "String b' = String b @ p"
      by (simp add: b2_def)
    from cs have "prefix (butlast (chunks b)) (butlast (chunks b1))"
      by (auto simp: butlast_append prefixeq_butlast)
    with gr(1) cs2 have g1: "prefix (butlast (chunks b)) (chunks b')"
      by (simp add: prefix_order.trans)
    from cs gr(2) cs2 w have g2: "length (chunks b) \<le> length (chunks b')"
      by auto
    from ne d cs2 have l: "0 < len (last (chunks b'))"
      by simp
    have "buffer_inv b2" if "buffer_inv b"
      unfolding b2_def
      using that "1.prems"(3) b1(1,2,5) w cs d(1) by (rule buffer_inv_step)
    with inv have i: "buffer_inv b \<longrightarrow> buffer_inv b'"
      by blast
    from sl sl' have g3: "prefix (slices (pool b')) (slices (pool b))"
      by (simp add: b2_def prefix_order.trans)
    from res s pl fr g1 g2 g3 l i b1 show ?thesis
      by (simp add: b2_def)
  qed
qed

lemma length_concat_full:
  "\<forall>s \<in> set xs. len s = c \<Longrightarrow> int (length (concat (map elems xs))) = int (length xs) * c"
  by (induction xs) (auto simp: len_def algebra_simps)

lemma length_String:
  assumes "buffer_inv b" and "chunks b \<noteq> []"
  shows "int (length (String b)) = (Chunks b - 1) * chunkCap b + len (last (chunks b))"
proof -
  from assms(2) have "String b = concat (map elems (butlast (chunks b) @ [last (chunks b)]))"
    by (simp add: String_def)
  also have "\<dots> = concat (map elems (butlast (chunks b))) @ elems (last (chunks b))"
    by (simp del: append_butlast_last_id)
  finally have "int (length (String b))
      = int (length (concat (map elems (butlast (chunks b))))) + len (last (chunks b))"
    by (simp add: len_def)
  moreover from assms(1) have "int (length (concat (map elems (butlast (chunks b)))))
      = int (length (butlast (chunks b))) * chunkCap b"
    by (intro length_concat_full) (simp add: buffer_inv_def)
  moreover from assms(2) have "int (length (butlast (chunks b))) = Chunks b - 1"
    by (simp add: Chunks_def Suc_leI of_nat_diff)
  ultimately show ?thesis
    by simp
qed

lemma Chunks_eq:
  assumes "buffer_inv b" and "chunks b \<noteq> []" and "0 < len (last (chunks b))"
  shows "Chunks b = (int (length (String b)) + chunkCap b - 1) div chunkCap b"
proof -
  define c where "c = chunkCap b"
  define l where "l = len (last (chunks b))"
  from assms(2) have "last (chunks b) \<in> set (chunks b)"
    by simp
  with assms(1) have "cap (last (chunks b)) = c"
    by (simp add: buffer_inv_def c_def)
  with len_le_cap [of "last (chunks b)"] assms(3) have l: "0 < l" "l \<le> c"
    by (simp_all add: l_def)
  then have one: "(l + c - 1) div c = 1"
    by (simp add: div_pos_pos_trivial int_div_pos_eq)
  have e: "int (length (String b)) + c - 1 = (Chunks b - 1) * c + (l + c - 1)"
    using length_String [OF assms(1,2)] by (simp add: c_def l_def)
  have "(int (length (String b)) + c - 1) div c = ((Chunks b - 1) * c + (l + c - 1)) div c"
    by (simp only: e)
  also from l have "\<dots> = Chunks b - 1 + (l + c - 1) div c"
    by simp
  also from one have "\<dots> = Chunks b"
    by simp
  finally show ?thesis
    by (simp add: c_def)
qed

lemma NewBuffer_Inr:
  assumes "pool_inv p" and "0 \<le> bytesCap p"
  obtains b h' where "NewBuffer (Some p) h = Inr ((Some b, None), h')"
    and "buffer_inv b" and "length (chunks b) = 1" and "String b = []"
    and "chunkCap b = bytesCap p" and "offset b = 0"
proof -
  obtain s p' h' where get: "Get p h = Inr (s, p', h')" and s: "len s = 0" "cap s = bytesCap p"
    and p': "pool_inv p'" "bytesCap p' = bytesCap p"
    using Get_Inr [OF assms, of h] by blast
  let ?b = "\<lparr>pool = p', offset = 0, chunks = [s], chunkCap = cap s\<rparr>"
  from get have "NewBuffer (Some p) h = Inr ((Some ?b, None), h')"
    by (simp add: NewBuffer_def)
  moreover from s p' have "buffer_inv ?b"
    by (simp add: buffer_inv_def)
  moreover from s have "String ?b = []"
    by (simp add: String_def len_def)
  ultimately show ?thesis
    using that [of ?b h'] s by simp
qed

lemma Write_Inr:
  assumes "pool_inv (pool b)" and "0 < bytesCap (pool b)" and "chunks b \<noteq> []"
  obtains b' h' where "Write b d h = Inr ((int (length d), None), b', h')"
    and "String b' = String b @ d"
    and "pool_inv (pool b')" and "bytesCap (pool b') = bytesCap (pool b)"
    and "poolCap (pool b') = poolCap (pool b)"
    and "offset b' = offset b" and "chunkCap b' = chunkCap b"
    and "prefix (butlast (chunks b)) (chunks b')" and "Chunks b \<le> Chunks b'"
    and "prefix (slices (pool b')) (slices (pool b))"
    and "d \<noteq> [] \<longrightarrow> 0 < len (last (chunks b'))"
    and "buffer_inv b \<longrightarrow> buffer_inv b'"
proof -
  from writeLoop_Inr [OF assms, of d 0 h]
  obtain b' h' where "writeLoop b d 0 h = Inr (int (length d), b', h')"
    and rest: "String b' = String b @ d"
      "pool_inv (pool b')" "bytesCap (pool b') = bytesCap (pool b)"
      "poolCap (pool b') = poolCap (pool b)"
      "offset b' = offset b" "chunkCap b' = chunkCap b"
      "prefix (butlast (chunks b)) (chunks b')" "length (chunks b) \<le> length (chunks b')"
      "prefix (slices (pool b')) (slices (pool b))"
      "d \<noteq> [] \<or> 0 < len (last (chunks b)) \<longrightarrow> 0 < len (last (chunks b'))"
      "buffer_inv b \<longrightarrow> buffer_inv b'"
    by auto
  with assms(3) have "Write b d h = Inr ((int (length d), None), b', h')"
    by (simp add: Write_def)
  with rest show ?thesis
    using that [of b' h'] by (simp add: Chunks_def)
qed

lemma Write_ErrTooLarge:
  assumes "buffer_inv b" and "chunks b \<noteq> []" and "chunkCap b = 0" and "d \<noteq> []"
  shows "Write b d h = Inl ErrTooLarge"
proof -
  from assms(1,3) have pl: "pool_inv (pool b)" "0 \<le> bytesCap (pool b)"
    by (simp_all add: buffer_inv_def)
  obtain s p' h' where get: "Get (pool b) h = Inr (s, p', h')"
    and s: "len s = 0" "cap s = bytesCap (pool b)"
    using Get_Inr [OF pl, of h] by blast
  from assms(2) have "last (chunks b) \<in> set (chunks b)"
    by simp
  with assms(1,3) have "cap (last (chunks b)) = 0"
    by (simp add: buffer_inv_def)
  with len_le_cap [of "last (chunks b)"] have "cap (last (chunks b)) - len (last (chunks b)) = 0"
    by (simp add: len_def)
  with assms(2) get have fw: "findWritableChunk b h
      = Inr (length (chunks b), b\<lparr>pool := p', chunks := chunks b @ [s]\<rparr>, h')"
    by (simp add: findWritableChunk_def Let_def last_conv_nth)
  from s assms(1,3) have "len s = cap s"
    by (simp add: buffer_inv_def)
  with assms(4) have "moveBytes s d = Inl ErrTooLarge"
    by (rule moveBytes_ErrTooLarge)
  with fw assms(4) have "writeLoop b d 0 h = Inl ErrTooLarge"
    by (subst writeLoop.simps) simp
  with assms(2) show ?thesis
    by (simp add: Write_def)
qed

text \<open>
  Claim C3. On a buffer that holds a chunk and whose pool keeps its invariant with a
  slice capacity above 0, \<open>Write\<close> returns the length of the data and no error; the
  bytes of the buffer are then the bytes before followed by the data. Every chunk but
  the last is left as it was and chunks are only added at the end, each one taken from
  the pool by \<open>Get\<close>, whose idle stack only loses slices from its top. When the buffer
  keeps its invariant and the data is not empty, the number of chunks afterwards is the
  number of bytes divided by the chunk capacity, rounded up. Writing \<open>"hello world"\<close> to
  the buffer just made from any pool of slice capacity 5 leaves 3 chunks.
\<close>

theorem C3_write_appends:
  "(pool_inv (pool b) \<longrightarrow> 0 < bytesCap (pool b) \<longrightarrow> chunks b \<noteq> [] \<longrightarrow>
      (\<exists>b' h'. Write b d h = Inr ((int (length d), None), b', h') \<and>
         String b' = String b @ d \<and>
         prefix (butlast (chunks b)) (chunks b') \<and> Chunks b \<le> Chunks b' \<and>
         prefix (slices (pool b')) (slices (pool b)) \<and>
         offset b' = offset b \<and> chunkCap b' = chunkCap b \<and>
         (buffer_inv b \<longrightarrow> d \<noteq> [] \<longrightarrow>
            Chunks b' = (int (length (String b @ d)) + chunkCap b - 1) div chunkCap b))) \<and>
   (pool_inv p \<longrightarrow> bytesCap p = 5 \<longrightarrow>
      (\<exists>fb h1 b' h'. NewBuffer (Some p) h0 = Inr ((Some fb, None), h1) \<and>
         Write fb ''hello world'' h1 = Inr ((11, None), b', h') \<and>
         String b' = ''hello world'' \<and> Chunks b' = 3))"
proof (intro conjI impI)
  assume pre: "pool_inv (pool b)" "0 < bytesCap (pool b)" "chunks b \<noteq> []"
  obtain b' h' where wr: "Write b d h = Inr ((int (length d), None), b', h')"
    and str: "String b' = String b @ d"
    and fr: "offset b' = offset b" "chunkCap b' = chunkCap b"
    and gr: "prefix (butlast (chunks b)) (chunks b')" "Chunks b \<le> Chunks b'"
      "prefix (slices (pool b')) (slices (pool b))"
    and ne: "d \<noteq> [] \<longrightarrow> 0 < len (last (chunks b'))"
    and inv: "buffer_inv b \<longrightarrow> buffer_inv b'"
    using Write_Inr [OF pre, of d h] by blast
  from gr(2) pre(3) have ne': "chunks b' \<noteq> []"
    by (auto simp: Chunks_def)
  have "Chunks b' = (int (length (String b @ d)) + chunkCap b - 1) div chunkCap b"
    if "buffer_inv b" and "d \<noteq> []"
    using that inv ne Chunks_eq [OF _ ne', unfolded str fr] by blast
  with wr str fr gr
  show "\<exists>b' h'. Write b d h = Inr ((int (length d), None), b', h') \<and>
         String b' = String b @ d \<and>
         prefix (butlast (chunks b)) (chunks b') \<and> Chunks b \<le> Chunks b' \<and>
         prefix (slices (pool b')) (slices (pool b)) \<and>
         offset b' = offset b \<and> chunkCap b' = chunkCap b \<and>
         (buffer_inv b \<longrightarrow> d \<noteq> [] \<longrightarrow>
            Chunks b' = (int (length (String b @ d)) + chunkCap b - 1) div chunkCap b)"
    by blast
next
  assume p: "pool_inv p" "bytesCap p = 5"
  then have "0 \<le> bytesCap p"
    by simp
  with p(1) obtain fb h1 where nb: "NewBuffer (Some p) h0 = Inr ((Some fb, None), h1)"
    and fb: "buffer_inv fb" "length (chunks fb) = 1" "String fb = []" "chunkCap fb = bytesCap p"
    using NewBuffer_Inr [of p h0] by blast
  from fb p have pre: "pool_inv (pool fb)" "0 < bytesCap (pool fb)" "chunks fb \<noteq> []"
    by (auto simp: buffer_inv_def)
  obtain b' h' where wr: "Write fb ''hello world'' h1 = Inr ((int (length ''hello world''), None), b', h')"
    and str: "String b' = String fb @ ''hello world''"
    and fr: "chunkCap b' = chunkCap fb"
    and gr: "Chunks fb \<le> Chunks b'"
    and ne: "''hello world'' \<noteq> [] \<longrightarrow> 0 < len (last (chunks b'))"
    and inv: "buffer_inv fb \<longrightarrow> buffer_inv b'"
    using Write_Inr [OF pre, of "''hello world''" h1] by blast
  from gr pre(3) have ne': "chunks b' \<noteq> []"
    by (auto simp: Chunks_def)
  from inv fb(1) ne have "Chunks b' = (int (length (String b')) + chunkCap b' - 1) div chunkCap b'"
    by (intro Chunks_eq [OF _ ne']) simp_all
  with str fr fb p(2) have "Chunks b' = 3"
    by simp
  with nb wr str fb(3)
  show "\<exists>fb h1 b' h'. NewBuffer (Some p) h0 = Inr ((Some fb, None), h1) \<and>
         Write fb ''hello world'' h1 = Inr ((11, None), b', h') \<and>
         String b' = ''hello world'' \<and> Chunks b' = 3"
    by auto
qed

theorem C3_write_appends_witness:
  "pool_inv (pool fresh_buf) \<and> 0 < bytesCap (pool fresh_buf) \<and> chunks fresh_buf \<noteq> [] \<and>
   buffer_inv fresh_buf \<and> pool_inv pool5 \<and> bytesCap pool5 = 5 \<and>
   NewBuffer (Some pool5) 0 = Inr ((Some fresh_buf, None), 5) \<and>
   Write fresh_buf ''hello world'' 5 = Inr ((11, None), hello_world_buf, 15) \<and>
   String hello_world_buf = String fresh_buf @ ''hello world'' \<and>
   Chunks hello_world_buf = 3"
  using C3_write_appends [of fresh_buf "''hello world''" 5 pool5 0]
    NewBuffer_fresh_buf Write_hello_world
  by (simp add: fresh_buf_def hello_world_buf_def pool5_def pool_inv_def buffer_inv_def
      String_def Chunks_def cap_def)

text \<open>
  Claim C9. A buffer made from a pool of slice capacity 0 panics with \<open>ErrTooLarge\<close>
  on every \<open>Write\<close> of data that is not empty. For a buffer that keeps its invariant
  and holds a chunk, a \<open>Write\<close> of data that is not empty panics with \<open>ErrTooLarge\<close>
  exactly when the chunk capacity is 0.
\<close>

theorem C9_zero_capacity_panics:
  "(pool_inv p \<longrightarrow> bytesCap p = 0 \<longrightarrow>
      (\<exists>zb h1. NewBuffer (Some p) h0 = Inr ((Some zb, None), h1) \<and>
         (d \<noteq> [] \<longrightarrow> Write zb d h1 = Inl ErrTooLarge))) \<and>
   (buffer_inv b \<longrightarrow> chunks b \<noteq> [] \<longrightarrow> d \<noteq> [] \<longrightarrow>
      (Write b d h = Inl ErrTooLarge \<longleftrightarrow> chunkCap b = 0))"
proof (intro conjI impI)
  assume p: "pool_inv p" "bytesCap p = 0"
  then have "0 \<le> bytesCap p"
    by simp
  with p(1) obtain zb h1 where nb: "NewBuffer (Some p) h0 = Inr ((Some zb, None), h1)"
    and zb: "buffer_inv zb" "length (chunks zb) = 1" "chunkCap zb = bytesCap p"
    using NewBuffer_Inr [of p h0] by blast
  from zb(2) have "chunks zb \<noteq> []"
    by auto
  with zb p(2) have "Write zb d h1 = Inl ErrTooLarge" if "d \<noteq> []"
    using that by (intro Write_ErrTooLarge) simp_all
  with nb show "\<exists>zb h1. NewBuffer (Some p) h0 = Inr ((Some zb, None), h1) \<and>
         (d \<noteq> [] \<longrightarrow> Write zb d h1 = Inl ErrTooLarge)"
    by blast
next
  assume b: "buffer_inv b" "chunks b \<noteq> []" and d: "d \<noteq> []"
  show "Write b d h = Inl ErrTooLarge \<longleftrightarrow> chunkCap b = 0"
  proof
    assume "chunkCap b = 0"
    with b d show "Write b d h = Inl ErrTooLarge"
      by (intro Write_ErrTooLarge)
  next
    assume panic: "Write b d h = Inl ErrTooLarge"
    show "chunkCap b = 0"
    proof (rule ccontr)
      assume nz: "chunkCap b \<noteq> 0"
      from b(2) have "last (chunks b) \<in> set (chunks b)"
        by simp
      with b(1) have "cap (last (chunks b)) = chunkCap b"
        by (simp add: buffer_inv_def)
      with nz have "0 < chunkCap b"
        by (simp add: cap_def)
      with b(1) have pre: "pool_inv (pool b)" "0 < bytesCap (pool b)"
        by (simp_all add: buffer_inv_def)
      obtain b' h' where "Write b d h = Inr ((int (length d), None), b', h')"
        using Write_Inr [OF pre b(2), of d h] by blast
      with panic show False
        by simp
    qed
  qed
qed

theorem C9_zero_capacity_panics_witness:
  "NewPool 0 1 = Inr pool0 \<and> pool_inv pool0 \<and> bytesCap pool0 = 0 \<and>
   NewBuffer (Some pool0) 0 = Inr ((Some zero_buf, None), 0) \<and>
   buffer_inv zero_buf \<and> chunks zero_buf \<noteq> [] \<and> chunkCap zero_buf = 0 \<and>
   Write zero_buf ''a'' 0 = Inl ErrTooLarge"
  using C9_zero_capacity_panics [of pool0 0 "''a''" zero_buf 0]
  by (simp add: NewPool_def pool0_def zero_buf_def pool_inv_def buffer_inv_def NewBuffer_def
      Get_def make_bytes_def cap_def len_def)

end
